theory Spec2Isabelle
  imports Complex_Main "HOL-Library.Word"
begin

unbundle bit_operations_syntax

section \<open>Data model of \<^verbatim>\<open>ssz/utils.py\<close>\<close>

text \<open>
  Python \<^verbatim>\<open>bytes\<close> are lists of 8-bit words, Python integers are unbounded (\<open>int\<close>),
  lengths and indices that the code obtains from \<^verbatim>\<open>len\<close> and \<^verbatim>\<open>range\<close> are \<open>nat\<close>.
  The module-level list \<^verbatim>\<open>zerohashes\<close> and the local list \<^verbatim>\<open>tmp_list\<close> hold values of
  more than one Python type (\<^verbatim>\<open>None\<close>, \<^verbatim>\<open>bytes\<close>, \<^verbatim>\<open>int\<close>), so their elements are a
  datatype of dynamically typed values. Every \<^verbatim>\<open>raise\<close> of the source and of the
  builtins it calls is a value of type \<open>error\<close>.
\<close>

type_synonym byte = "8 word"
type_synonym bytes = "byte list"

datatype pyval = PNone | PBytes bytes | PInt int

datatype error =
    TypeError
  | IndexError
  | ValueError
  | OverflowError
  | StopIteration
  | InvariantException

fun bind_err :: "error + 'a \<Rightarrow> ('a \<Rightarrow> error + 'b) \<Rightarrow> error + 'b" where
  "bind_err (Inl e) f = Inl e"
| "bind_err (Inr v) f = f v"

text \<open>Modelled from the spec: the constants of \<^verbatim>\<open>ssz/constants.py\<close>, which the source
  imports: the chunk size is 32 bytes, the offset size is 4 bytes, and the designated
  empty chunk is 32 zero bytes.\<close>

definition CHUNK_SIZE :: nat where
  "CHUNK_SIZE = 32"

definition OFFSET_SIZE :: nat where
  "OFFSET_SIZE = 4"

definition EMPTY_CHUNK :: bytes where
  "EMPTY_CHUNK = replicate 32 0"

subsection \<open>Builtins used by the source\<close>

text \<open>\<^verbatim>\<open>a + b\<close> on dynamically typed values: concatenation of two byte strings, the sum
  of two integers, \<^verbatim>\<open>TypeError\<close> for every other combination.\<close>

fun py_add :: "pyval \<Rightarrow> pyval \<Rightarrow> error + pyval" where
  "py_add (PBytes a) (PBytes b) = Inr (PBytes (a @ b))"
| "py_add (PInt a) (PInt b) = Inr (PInt (a + b))"
| "py_add _ _ = Inl TypeError"

text \<open>\<^verbatim>\<open>xs[i]\<close> for reading and \<^verbatim>\<open>xs[i] = v\<close> for writing, with a non-negative index.\<close>

definition lookup :: "'a list \<Rightarrow> nat \<Rightarrow> error + 'a" where
  "lookup xs i = (if i < length xs then Inr (xs ! i) else Inl IndexError)"

definition store :: "'a list \<Rightarrow> nat \<Rightarrow> 'a \<Rightarrow> error + 'a list" where
  "store xs i v = (if i < length xs then Inr (xs[i := v]) else Inl IndexError)"

text \<open>\<^verbatim>\<open>int.bit_length()\<close>: the number of bits of the absolute value.\<close>

fun bit_length_nat :: "nat \<Rightarrow> nat" where
  "bit_length_nat n = (if n = 0 then 0 else Suc (bit_length_nat (n div 2)))"

definition bit_length :: "int \<Rightarrow> nat" where
  "bit_length n = bit_length_nat (nat \<bar>n\<bar>)"

text \<open>\<^verbatim>\<open>n.to_bytes(len, 'little')\<close>: \<^verbatim>\<open>OverflowError\<close> for a negative integer and for one
  that does not fit into \<open>len\<close> bytes.\<close>

fun le_digits :: "nat \<Rightarrow> int \<Rightarrow> bytes" where
  "le_digits 0 n = []"
| "le_digits (Suc k) n = word_of_int n # le_digits k (n div 256)"

definition to_bytes_little :: "int \<Rightarrow> nat \<Rightarrow> error + bytes" where
  "to_bytes_little n len =
     (if n < 0 then Inl OverflowError
      else if 256 ^ len \<le> n then Inl OverflowError
      else Inr (le_digits len n))"

text \<open>\<^verbatim>\<open>int.from_bytes(data, 'little')\<close>.\<close>

fun from_bytes_little :: "bytes \<Rightarrow> int" where
  "from_bytes_little [] = 0"
| "from_bytes_little (b # bs) = uint b + 256 * from_bytes_little bs"

text \<open>\<^verbatim>\<open>b.ljust(width, fill)\<close> and the slice \<^verbatim>\<open>b[lo:hi]\<close> for \<open>0 \<le> lo\<close>, \<open>0 \<le> hi\<close>.\<close>

definition ljust :: "bytes \<Rightarrow> nat \<Rightarrow> byte \<Rightarrow> bytes" where
  "ljust b width fill = b @ replicate (width - length b) fill"

definition slice :: "'a list \<Rightarrow> nat \<Rightarrow> nat \<Rightarrow> 'a list" where
  "slice xs lo hi = take (hi - lo) (drop lo xs)"

subsection \<open>Offsets\<close>

definition encode_offset :: "int \<Rightarrow> error + bytes" where
  "encode_offset offset = to_bytes_little offset OFFSET_SIZE"

definition decode_offset :: "bytes \<Rightarrow> int" where
  "decode_offset data = from_bytes_little data"

subsection \<open>Items per chunk\<close>

definition get_items_per_chunk :: "int \<Rightarrow> error + int" where
  "get_items_per_chunk item_size =
     (if item_size < 0 then Inl ValueError
      else if item_size = 0 then Inr 1
      else if int CHUNK_SIZE mod item_size \<noteq> 0 then Inl ValueError
      else if item_size \<le> int CHUNK_SIZE then Inr (int CHUNK_SIZE div item_size)
      else Inl InvariantException)"

subsection \<open>Library iterators used by \<^verbatim>\<open>pack\<close>\<close>

text \<open>\<^verbatim>\<open>partition(n, seq, pad=p)\<close> of toolz is \<^verbatim>\<open>zip_longest\<close> over \<open>n\<close> copies of one
  iterator: consecutive groups of \<open>n\<close> elements, the last group filled up with \<open>p\<close>;
  nothing for an empty sequence (and nothing for \<open>n = 0\<close>).\<close>

function partition_pad :: "nat \<Rightarrow> 'a list \<Rightarrow> 'a \<Rightarrow> 'a list list" where
  "partition_pad n xs p =
     (if n = 0 \<or> xs = [] then []
      else (take n xs @ replicate (n - length xs) p) # partition_pad n (drop n xs) p)"
  by pat_completeness auto
termination
  by (relation "measure (\<lambda>(n, xs, p). length xs)") auto

text \<open>\<^verbatim>\<open>take(n, seq)\<close> of toolz is \<^verbatim>\<open>itertools.islice(seq, n)\<close>: \<^verbatim>\<open>ValueError\<close> for a
  negative \<open>n\<close>. It consumes the elements it returns from the underlying generator, so
  the model returns the taken elements and the rest of the generator.\<close>

definition take_toolz :: "int \<Rightarrow> 'a list \<Rightarrow> error + ('a list \<times> 'a list)" where
  "take_toolz n gen =
     (if n < 0 then Inl ValueError else Inr (take (nat n) gen, drop (nat n) gen))"

text \<open>\<^verbatim>\<open>first(seq)\<close> of toolz is \<^verbatim>\<open>next(iter(seq))\<close>: \<^verbatim>\<open>StopIteration\<close> on an exhausted
  generator; else the element and the rest of the generator.\<close>

fun first_toolz :: "'a list \<Rightarrow> error + ('a \<times> 'a list)" where
  "first_toolz [] = Inl StopIteration"
| "first_toolz (x # gen) = Inr (x, gen)"

subsection \<open>Chunk packer\<close>

definition pack :: "bytes list \<Rightarrow> error + bytes list" where
  "pack serialized_values =
     (if length serialized_values = 0 then Inr [EMPTY_CHUNK]
      else
        let item_size = int (length (serialized_values ! 0)) in
        bind_err (get_items_per_chunk item_size) (\<lambda>items_per_chunk.
        let number_of_items = int (length serialized_values);
            number_of_chunks = (number_of_items + (items_per_chunk - 1)) div items_per_chunk;
            chunk_partitions = partition_pad (nat items_per_chunk) serialized_values [];
            chunks_unpadded = map concat chunk_partitions
        in
        bind_err (take_toolz (number_of_chunks - 1) chunks_unpadded) (\<lambda>(full_chunks, gen1).
        bind_err (first_toolz gen1) (\<lambda>(last_chunk, gen2).
        if length gen2 > 0 then Inl InvariantException
        else Inr (full_chunks @ [ljust last_chunk CHUNK_SIZE 0])))))"

definition pack_bytes :: "bytes \<Rightarrow> bytes list" where
  "pack_bytes byte_string =
     (let size = length byte_string in
      if size = 0 then [EMPTY_CHUNK]
      else
        let number_of_full_chunks = size div CHUNK_SIZE;
            last_chunk_is_full = (size mod CHUNK_SIZE = 0);
            full_chunks =
              map (\<lambda>chunk_index.
                     slice byte_string (chunk_index * CHUNK_SIZE) ((chunk_index + 1) * CHUNK_SIZE))
                  [0..<number_of_full_chunks]
        in
        if last_chunk_is_full then full_chunks
        else
          let last_chunk =
                ljust (drop (number_of_full_chunks * CHUNK_SIZE) byte_string) CHUNK_SIZE 0
          in full_chunks @ [last_chunk])"

subsection \<open>Zero-hash table\<close>

text \<open>
  The module builds the table when it is loaded:
  \<^verbatim>\<open>zerohashes = [ZERO_BYTES32]\<close>, then for \<^verbatim>\<open>layer in range(1, 100)\<close> it appends
  \<^verbatim>\<open>hash(zerohashes[layer - 1] + zerohashes[layer - 1])\<close>. The name \<^verbatim>\<open>hash\<close> is not
  imported by the module, so it is Python's builtin \<^verbatim>\<open>hash\<close>, which returns an integer
  (for byte strings one that depends on the interpreter's hash seed). The builtin is the
  parameter \<open>hash\<close> of the model; \<^verbatim>\<open>hash_eth2\<close> of \<^verbatim>\<open>ssz/hash.py\<close> is the parameter \<open>H\<close>.
\<close>

definition ZERO_BYTES32 :: bytes where
  "ZERO_BYTES32 = replicate 32 0"

fun zerohashes_loop :: "(pyval \<Rightarrow> int) \<Rightarrow> nat list \<Rightarrow> pyval list \<Rightarrow> error + pyval list" where
  "zerohashes_loop hash [] zs = Inr zs"
| "zerohashes_loop hash (layer # layers) zs =
     bind_err (lookup zs (layer - 1)) (\<lambda>a.
     bind_err (lookup zs (layer - 1)) (\<lambda>b.
     bind_err (py_add a b) (\<lambda>s.
     zerohashes_loop hash layers (zs @ [PInt (hash s)]))))"

definition zerohashes :: "(pyval \<Rightarrow> int) \<Rightarrow> error + pyval list" where
  "zerohashes hash = zerohashes_loop hash [1..<100] [PBytes ZERO_BYTES32]"

subsection \<open>Merkleizer\<close>

text \<open>\<^verbatim>\<open>hash_eth2\<close> applied to a dynamically typed value: it hashes byte strings only.\<close>

fun hash_eth2 :: "(bytes \<Rightarrow> bytes) \<Rightarrow> pyval \<Rightarrow> error + pyval" where
  "hash_eth2 H (PBytes b) = Inr (PBytes (H b))"
| "hash_eth2 H _ = Inl TypeError"

definition get_next_power_of_two :: "int \<Rightarrow> int" where
  "get_next_power_of_two v = (if v \<le> 0 then 1 else 2 ^ bit_length (v - 1))"

text \<open>The \<^verbatim>\<open>while True\<close> loop of the nested function \<^verbatim>\<open>merge\<close>, from the state
  \<open>(node, layer)\<close>; it returns the state at \<^verbatim>\<open>break\<close>. The table \<open>zs\<close> is the value of the
  global \<^verbatim>\<open>zerohashes\<close>; \<open>chunk_count\<close>, \<open>chunk_depth\<close> and \<open>tmp_list\<close> are the variables
  of the enclosing call of \<^verbatim>\<open>merkleize\<close>.\<close>

function merge_loop ::
  "(bytes \<Rightarrow> bytes) \<Rightarrow> pyval list \<Rightarrow> nat \<Rightarrow> nat \<Rightarrow> pyval list \<Rightarrow> nat \<Rightarrow> pyval \<Rightarrow> nat
     \<Rightarrow> error + (pyval \<times> nat)" where
  "merge_loop H zs chunk_count chunk_depth tmp_list leaf_index node layer =
     (if leaf_index AND push_bit layer 1 = 0 then
        if leaf_index = chunk_count \<and> layer < chunk_depth then
          bind_err (lookup zs layer) (\<lambda>z.
          bind_err (py_add node z) (\<lambda>s.
          bind_err (hash_eth2 H s) (\<lambda>node'.
          merge_loop H zs chunk_count chunk_depth tmp_list leaf_index node' (layer + 1))))
        else Inr (node, layer)
      else
        bind_err (lookup tmp_list layer) (\<lambda>t.
        bind_err (py_add t node) (\<lambda>s.
        bind_err (hash_eth2 H s) (\<lambda>node'.
        merge_loop H zs chunk_count chunk_depth tmp_list leaf_index node' (layer + 1)))))"
  by pat_completeness auto
termination merge_loop
proof (relation "measure (\<lambda>(H, zs, cc, cd, tmp, idx, node, layer). (idx + cd) - layer)")
  fix chunk_depth leaf_index layer :: nat
  assume a: "leaf_index AND push_bit layer 1 \<noteq> 0"
  have "bit leaf_index layer"
    using a by (simp add: and_exp_eq_0_iff_not_bit push_bit_eq_mult)
  then have "odd (leaf_index div 2 ^ layer)"
    by (simp add: bit_iff_odd)
  then have "leaf_index div 2 ^ layer \<noteq> 0"
    by (cases "leaf_index div 2 ^ layer = 0") simp_all
  then have "2 ^ layer \<le> leaf_index"
    by (simp add: div_eq_0_iff not_less)
  moreover have "layer < 2 ^ layer"
    by simp
  ultimately have "layer < leaf_index"
    by linarith
  then show "((H, zs, chunk_count, chunk_depth, tmp_list, leaf_index, node', layer + 1),
              (H, zs, chunk_count, chunk_depth, tmp_list, leaf_index, node, layer))
             \<in> measure (\<lambda>(H, zs, cc, cd, tmp, idx, node, layer). (idx + cd) - layer)"
    for H :: "bytes \<Rightarrow> bytes" and zs tmp_list :: "pyval list"
      and chunk_count :: nat and node node' :: pyval
    by simp
qed auto

declare merge_loop.simps [simp del]
declare partition_pad.simps [simp del]
declare bit_length_nat.simps [simp del]

text \<open>The nested function \<^verbatim>\<open>merge(leaf, leaf_index)\<close>: the loop from \<open>(leaf, 0)\<close>, then
  \<^verbatim>\<open>tmp_list[layer] = node\<close>. It returns the updated \<^verbatim>\<open>tmp_list\<close>.\<close>

definition merge ::
  "(bytes \<Rightarrow> bytes) \<Rightarrow> pyval list \<Rightarrow> nat \<Rightarrow> nat \<Rightarrow> pyval list \<Rightarrow> pyval \<Rightarrow> nat
     \<Rightarrow> error + pyval list" where
  "merge H zs chunk_count chunk_depth tmp_list leaf leaf_index =
     bind_err (merge_loop H zs chunk_count chunk_depth tmp_list leaf_index leaf 0)
       (\<lambda>(node, layer). store tmp_list layer node)"

text \<open>\<^verbatim>\<open>for leaf_index in range(chunk_count): merge(chunks[leaf_index], leaf_index)\<close>,
  over the list of the remaining indices.\<close>

fun merge_leaves ::
  "(bytes \<Rightarrow> bytes) \<Rightarrow> pyval list \<Rightarrow> bytes list \<Rightarrow> nat \<Rightarrow> nat \<Rightarrow> nat list \<Rightarrow> pyval list
     \<Rightarrow> error + pyval list" where
  "merge_leaves H zs chunks chunk_count chunk_depth [] tmp_list = Inr tmp_list"
| "merge_leaves H zs chunks chunk_count chunk_depth (leaf_index # rest) tmp_list =
     bind_err (lookup chunks leaf_index) (\<lambda>leaf.
     bind_err (merge H zs chunk_count chunk_depth tmp_list (PBytes leaf) leaf_index) (\<lambda>tmp_list'.
     merge_leaves H zs chunks chunk_count chunk_depth rest tmp_list'))"

text \<open>\<^verbatim>\<open>for layer in range(chunk_depth, max_depth):\<close>
  \<^verbatim>\<open>tmp_list[layer + 1] = hash_eth2(tmp_list[layer] + zerohashes[layer])\<close>.\<close>

fun pad_loop ::
  "(bytes \<Rightarrow> bytes) \<Rightarrow> pyval list \<Rightarrow> nat list \<Rightarrow> pyval list \<Rightarrow> error + pyval list" where
  "pad_loop H zs [] tmp_list = Inr tmp_list"
| "pad_loop H zs (layer # rest) tmp_list =
     bind_err (lookup tmp_list layer) (\<lambda>t.
     bind_err (lookup zs layer) (\<lambda>z.
     bind_err (py_add t z) (\<lambda>s.
     bind_err (hash_eth2 H s) (\<lambda>node.
     bind_err (store tmp_list (layer + 1) node) (\<lambda>tmp_list'.
     pad_loop H zs rest tmp_list')))))"

text \<open>The body of \<^verbatim>\<open>merkleize(chunks, pad_for)\<close>, given the value \<open>zs\<close> of the global
  \<^verbatim>\<open>zerohashes\<close>.\<close>

definition merkleize_body ::
  "pyval list \<Rightarrow> (bytes \<Rightarrow> bytes) \<Rightarrow> bytes list \<Rightarrow> int \<Rightarrow> error + pyval" where
  "merkleize_body zs H chunks pad_for =
     (let chunk_count = length chunks;
          chunk_depth = bit_length (max (int chunk_count - 1) 0);
          max_depth = max chunk_depth (bit_length (pad_for - 1));
          tmp_list = replicate (max_depth + 1) PNone
      in
      bind_err (merge_leaves H zs chunks chunk_count chunk_depth [0..<chunk_count] tmp_list)
        (\<lambda>tmp_list1.
      bind_err
        (if push_bit chunk_depth 1 \<noteq> chunk_count then
           bind_err (lookup zs 0) (\<lambda>z0.
           merge H zs chunk_count chunk_depth tmp_list1 z0 chunk_count)
         else Inr tmp_list1)
        (\<lambda>tmp_list2.
      bind_err (pad_loop H zs [chunk_depth..<max_depth] tmp_list2)
        (\<lambda>tmp_list3.
      lookup tmp_list3 max_depth))))"

text \<open>\<^verbatim>\<open>merkleize\<close> as a caller sees it: the module has built its table with the builtin
  \<open>hash\<close>, and the body runs on that table with \<^verbatim>\<open>hash_eth2 = H\<close>.\<close>

definition merkleize ::
  "(pyval \<Rightarrow> int) \<Rightarrow> (bytes \<Rightarrow> bytes) \<Rightarrow> bytes list \<Rightarrow> int \<Rightarrow> error + pyval" where
  "merkleize hash H chunks pad_for =
     bind_err (zerohashes hash) (\<lambda>zs. merkleize_body zs H chunks pad_for)"

subsection \<open>Length mixer\<close>

definition mix_in_length :: "(bytes \<Rightarrow> bytes) \<Rightarrow> bytes \<Rightarrow> int \<Rightarrow> error + bytes" where
  "mix_in_length H root_node len =
     bind_err (to_bytes_little len CHUNK_SIZE) (\<lambda>enc. Inr (H (root_node @ enc)))"

subsection \<open>The packing rule as the specification words it\<close>

text \<open>For comparison with \<open>pack\<close>: concatenate all items, zero-pad the concatenation on
  the right to a multiple of \<open>CHUNK_SIZE\<close>, slice it into consecutive pieces of
  \<open>CHUNK_SIZE\<close> bytes.\<close>

definition zero_pad_to_chunks :: "bytes \<Rightarrow> bytes" where
  "zero_pad_to_chunks b =
     b @ replicate ((CHUNK_SIZE - length b mod CHUNK_SIZE) mod CHUNK_SIZE) 0"

definition slice_chunks :: "bytes \<Rightarrow> bytes list" where
  "slice_chunks b =
     map (\<lambda>i. slice b (i * CHUNK_SIZE) ((i + 1) * CHUNK_SIZE)) [0..<length b div CHUNK_SIZE]"

definition pack_spec :: "bytes list \<Rightarrow> bytes list" where
  "pack_spec items = slice_chunks (zero_pad_to_chunks (concat items))"

subsection \<open>Shape of the table the module builds\<close>

text \<open>Used in the proofs about \<open>zerohashes\<close>: the first entry is \<open>ZERO_BYTES32\<close> and every
  later entry is an integer.\<close>

definition table_shape :: "pyval list \<Rightarrow> bool" where
  "table_shape zs \<longleftrightarrow>
     zs \<noteq> [] \<and> zs ! 0 = PBytes ZERO_BYTES32 \<and> (\<forall>i. 0 < i \<and> i < length zs \<longrightarrow> (\<exists>n. zs ! i = PInt n))"

section \<open>Little-endian integers\<close>

lemma length_le_digits: "length (le_digits k n) = k"
  by (induction k arbitrary: n) simp_all

lemma from_bytes_le_digits: "from_bytes_little (le_digits k n) = n mod 256 ^ k"
proof (induction k arbitrary: n)
  case 0
  show ?case by simp
next
  case (Suc k)
  have "uint (word_of_int n :: byte) = n mod 256"
    by (simp add: uint_word_of_int)
  then have "from_bytes_little (le_digits (Suc k) n) = n mod 256 + 256 * ((n div 256) mod 256 ^ k)"
    using Suc.IH [of "n div 256"] by simp
  also have "\<dots> = n mod 256 ^ Suc k"
    using zmod_zmult2_eq [of "256 ^ k" n 256] by simp
  finally show ?case .
qed

lemma le_digits_zero: "le_digits k 0 = replicate k 0"
  by (induction k) simp_all

text \<open>
  Claim C10. For every integer \<open>x\<close> with \<open>0 \<le> x < 2^32\<close>, \<open>encode_offset x\<close> returns a
  byte string of length exactly \<open>OFFSET_SIZE\<close> (4), and decoding it gives \<open>x\<close> back.
\<close>

theorem encode_decode_offset:
  assumes "0 \<le> x" and "x < 2 ^ 32"
  shows "\<exists>data. encode_offset x = Inr data \<and> length data = OFFSET_SIZE \<and> OFFSET_SIZE = 4 \<and>
               decode_offset data = x"
proof -
  have "\<not> (256::int) ^ 4 \<le> x"
    using assms by simp
  then have "encode_offset x = Inr (le_digits 4 x)"
    using assms by (simp add: encode_offset_def to_bytes_little_def OFFSET_SIZE_def)
  moreover have "decode_offset (le_digits 4 x) = x"
    using assms by (simp add: decode_offset_def from_bytes_le_digits del: le_digits.simps)
  ultimately show ?thesis
    by (simp add: length_le_digits OFFSET_SIZE_def del: le_digits.simps)
qed

theorem encode_decode_offset_witness:
  "(0::int) \<le> 305419896 \<and> (305419896::int) < 2 ^ 32 \<and>
   encode_offset 305419896 = Inr [0x78, 0x56, 0x34, 0x12] \<and>
   decode_offset [0x78, 0x56, 0x34, 0x12] = 305419896"
proof -
  have e: "encode_offset 305419896 = Inr [0x78, 0x56, 0x34, 0x12]"
    by code_simp
  from encode_decode_offset [of 305419896]
  show ?thesis unfolding e by simp
qed

section \<open>Length mixer\<close>

text \<open>
  Claim C9. For every root and every integer length with \<open>0 \<le> length < 2^256\<close>,
  \<open>mix_in_length root length\<close> returns the hash, applied once, of the root followed by
  an encoding of 32 bytes whose little-endian value is the length; for length 0 the
  result is the hash of the root followed by 32 zero bytes.
\<close>

theorem mix_in_length_spec:
  "(0 \<le> n \<and> n < 2 ^ 256 \<longrightarrow>
      mix_in_length H r n = Inr (H (r @ le_digits 32 n)) \<and>
      length (le_digits 32 n) = 32 \<and>
      from_bytes_little (le_digits 32 n) = n) \<and>
   mix_in_length H r 0 = Inr (H (r @ replicate 32 0))"
proof -
  have a: "mix_in_length H r n = Inr (H (r @ le_digits 32 n))" if "0 \<le> n" "n < 2 ^ 256" for n
  proof -
    have "\<not> (256::int) ^ 32 \<le> n"
      using that by simp
    then show ?thesis
      using that
      by (simp add: mix_in_length_def to_bytes_little_def CHUNK_SIZE_def del: le_digits.simps)
  qed
  have b: "from_bytes_little (le_digits 32 n) = n" if "0 \<le> n" "n < 2 ^ 256" for n
    using that by (simp add: from_bytes_le_digits del: le_digits.simps)
  have c: "mix_in_length H r 0 = Inr (H (r @ replicate 32 0))"
    using a [of 0] by (simp add: le_digits_zero del: le_digits.simps)
  show ?thesis
    using a [of n] b [of n] c by (simp add: length_le_digits del: le_digits.simps)
qed

theorem mix_in_length_spec_witness:
  "(0::int) \<le> 258 \<and> (258::int) < 2 ^ 256 \<and>
   mix_in_length rev (replicate 32 7) 258 = Inr (rev (replicate 32 7 @ le_digits 32 258)) \<and>
   from_bytes_little (le_digits 32 258) = 258"
  using mix_in_length_spec [of 258 rev "replicate 32 7"] by simp

section \<open>Items per chunk\<close>

text \<open>
  Claim C8, as the code has it. \<open>get_items_per_chunk\<close> raises \<open>ValueError\<close> for every
  negative item size and for every positive item size that does not divide \<open>CHUNK_SIZE\<close>
  (every size above \<open>CHUNK_SIZE\<close> is one), and then so does \<open>pack\<close> on a non-empty
  sequence whose first item has such a size; for item size 0 it returns 1; for every
  positive divisor \<open>s\<close> of \<open>CHUNK_SIZE\<close> it returns \<open>CHUNK_SIZE div s\<close>.
\<close>

theorem get_items_per_chunk_cases:
  "(s < 0 \<longrightarrow> get_items_per_chunk s = Inl ValueError) \<and>
   (s = 0 \<longrightarrow> get_items_per_chunk s = Inr 1) \<and>
   (0 < s \<and> int CHUNK_SIZE mod s \<noteq> 0 \<longrightarrow> get_items_per_chunk s = Inl ValueError) \<and>
   (int CHUNK_SIZE < s \<longrightarrow> get_items_per_chunk s = Inl ValueError) \<and>
   (0 < s \<and> int CHUNK_SIZE mod s = 0 \<longrightarrow> get_items_per_chunk s = Inr (int CHUNK_SIZE div s)) \<and>
   (items \<noteq> [] \<and> 0 < length (items ! 0) \<and> CHUNK_SIZE mod length (items ! 0) \<noteq> 0 \<longrightarrow>
      pack items = Inl ValueError)"
proof -
  have a: "0 < s \<and> 32 mod s = 0 \<longrightarrow> s \<le> 32"
    by (auto simp: mod_eq_0_iff_dvd dest: zdvd_imp_le)
  have b: "pack items = Inl ValueError"
    if "items \<noteq> []" "0 < length (items ! 0)" "32 mod length (items ! 0) \<noteq> 0"
  proof -
    have "32 mod int (length (items ! 0)) = int (32 mod length (items ! 0))"
      using zmod_int [of 32 "length (items ! 0)"] by simp
    then have "get_items_per_chunk (int (length (items ! 0))) = Inl ValueError"
      using that by (simp add: get_items_per_chunk_def CHUNK_SIZE_def)
    then show ?thesis
      using that by (simp add: pack_def)
  qed
  show ?thesis
    using a b by (simp add: get_items_per_chunk_def CHUNK_SIZE_def)
qed

theorem get_items_per_chunk_cases_witness:
  "((-1::int) < 0 \<and> get_items_per_chunk (-1) = Inl ValueError) \<and>
   get_items_per_chunk 0 = Inr 1 \<and>
   ((0::int) < 5 \<and> int CHUNK_SIZE mod 5 \<noteq> 0 \<and> get_items_per_chunk 5 = Inl ValueError) \<and>
   (int CHUNK_SIZE < 64 \<and> get_items_per_chunk 64 = Inl ValueError) \<and>
   ((0::int) < 8 \<and> int CHUNK_SIZE mod 8 = 0 \<and> get_items_per_chunk 8 = Inr 4) \<and>
   ([[1, 2, 3]] \<noteq> ([] :: bytes list) \<and> 0 < length ([[1, 2, 3]] ! 0 :: bytes) \<and>
      CHUNK_SIZE mod length ([[1, 2, 3]] ! 0 :: bytes) \<noteq> 0 \<and>
      pack [[1, 2, 3]] = Inl ValueError)"
  using get_items_per_chunk_cases [of "-1" "[[1, 2, 3]]"]
    get_items_per_chunk_cases [of 0 "[]"]
    get_items_per_chunk_cases [of 5 "[]"]
    get_items_per_chunk_cases [of 64 "[]"]
    get_items_per_chunk_cases [of 8 "[]"]
  by (simp add: CHUNK_SIZE_def)

theorem get_items_per_chunk_zero_counterexample:
  "get_items_per_chunk 0 = Inr 1 \<and> pack [[], []] = Inr [[], replicate 32 0]"
  by code_simp

section \<open>Chunk packer\<close>

lemma concat_slices:
  "m * k \<le> length xs \<Longrightarrow>
   concat (map (\<lambda>i. slice xs (i * k) ((i + 1) * k)) [0..<m]) = take (m * k) xs"
proof (induction m)
  case 0
  show ?case by simp
next
  case (Suc m)
  then have "concat (map (\<lambda>i. slice xs (i * k) ((i + 1) * k)) [0..<m]) = take (m * k) xs"
    by simp
  moreover have "take (m * k) xs @ take k (drop (m * k) xs) = take (m * k + k) xs"
    by (simp add: take_add)
  ultimately show ?case
    by (simp add: slice_def add.commute)
qed

text \<open>
  Claim C7. For every byte string \<open>b\<close> (the empty one and exact multiples of 32
  included), the concatenation of the chunks of \<open>pack_bytes b\<close> is \<open>b\<close> followed by
  zero bytes only, so trimming it to the length of \<open>b\<close> gives \<open>b\<close> back; every full
  chunk is the corresponding 32-byte slice of \<open>b\<close>, unpadded, and a non-empty string
  whose length is a multiple of 32 gets no padding at all.
\<close>

theorem pack_bytes_roundtrip:
  "take (length b) (concat (pack_bytes b)) = b \<and>
   concat (pack_bytes b) = b @ replicate (length (concat (pack_bytes b)) - length b) 0 \<and>
   (\<forall>i < length b div CHUNK_SIZE.
       pack_bytes b ! i = take CHUNK_SIZE (drop (i * CHUNK_SIZE) b)) \<and>
   (b \<noteq> [] \<and> length b mod CHUNK_SIZE = 0 \<longrightarrow> concat (pack_bytes b) = b)"
proof -
  let ?m = "length b div 32"
  let ?full = "map (\<lambda>i. slice b (i * 32) ((i + 1) * 32)) [0..<?m]"
  have full: "concat ?full = take (?m * 32) b"
    by (rule concat_slices) simp
  have nth: "\<forall>i < ?m. (?full @ ys) ! i = take 32 (drop (i * 32) b)" for ys
    by (simp add: nth_append slice_def)
  have len: "length ?full = ?m"
    by simp
  consider (empty) "b = []" | (exact) "b \<noteq> []" "length b mod 32 = 0"
    | (partial) "length b mod 32 \<noteq> 0"
    by blast
  then show ?thesis
  proof cases
    case empty
    then show ?thesis
      by (simp add: pack_bytes_def EMPTY_CHUNK_def CHUNK_SIZE_def)
  next
    case exact
    then have pb: "pack_bytes b = ?full"
      by (simp add: pack_bytes_def CHUNK_SIZE_def Let_def)
    have "?m * 32 = length b"
      using exact by (simp add: mod_eq_0_iff_dvd)
    then have "concat (pack_bytes b) = b"
      using full pb by simp
    then show ?thesis
      using nth [of "[]"] pb by (simp add: CHUNK_SIZE_def)
  next
    case partial
    then have ne: "b \<noteq> []" by auto
    let ?last = "ljust (drop (?m * 32) b) 32 0"
    have pb: "pack_bytes b = ?full @ [?last]"
      using partial ne by (simp add: pack_bytes_def CHUNK_SIZE_def Let_def)
    have "concat (pack_bytes b) = take (?m * 32) b @ ?last"
      unfolding pb using full by simp
    also have "\<dots> = b @ replicate (32 - length (drop (?m * 32) b)) 0"
      by (simp add: ljust_def)
    finally have c: "concat (pack_bytes b) = b @ replicate (32 - length (drop (?m * 32) b)) 0" .
    have "\<forall>i < ?m. pack_bytes b ! i = take 32 (drop (i * 32) b)"
      unfolding pb by (rule nth)
    then show ?thesis
      using partial c by (simp add: CHUNK_SIZE_def)
  qed
qed

theorem pack_bytes_roundtrip_witness:
  "(0::nat) < length (replicate 40 (5::byte)) div CHUNK_SIZE \<and>
   take (length (replicate 40 (5::byte))) (concat (pack_bytes (replicate 40 5))) = replicate 40 5 \<and>
   pack_bytes (replicate 40 5) ! 0 = take CHUNK_SIZE (drop (0 * CHUNK_SIZE) (replicate 40 5)) \<and>
   replicate 64 (5::byte) \<noteq> [] \<and> length (replicate 64 (5::byte)) mod CHUNK_SIZE = 0 \<and>
   concat (pack_bytes (replicate 64 5)) = replicate 64 5"
  using pack_bytes_roundtrip [of "replicate 40 5"] pack_bytes_roundtrip [of "replicate 64 5"]
  by (simp add: CHUNK_SIZE_def)

lemma slice_chunks_Cons:
  assumes "length a = 32"
  shows "slice_chunks (a @ b) = a # slice_chunks b"
proof -
  have d: "length (a @ b) div 32 = Suc (length b div 32)"
    using assms by simp
  have "slice_chunks (a @ b) =
          slice (a @ b) 0 32 # map (\<lambda>i. slice (a @ b) (Suc i * 32) ((Suc i + 1) * 32)) [0..<length b div 32]"
    unfolding slice_chunks_def CHUNK_SIZE_def d map_upt_Suc by simp
  moreover have "slice (a @ b) 0 32 = a"
    using assms by (simp add: slice_def)
  moreover have "slice (a @ b) (Suc i * 32) ((Suc i + 1) * 32) = slice b (i * 32) ((i + 1) * 32)" for i
    using assms by (simp add: slice_def)
  ultimately show ?thesis
    by (simp add: slice_chunks_def CHUNK_SIZE_def)
qed

lemma slice_chunks_single: "length a = 32 \<Longrightarrow> slice_chunks a = [a]"
  using slice_chunks_Cons [of a "[]"] by (simp add: slice_chunks_def CHUNK_SIZE_def)

lemma zero_pad_append:
  "length a = 32 \<Longrightarrow> zero_pad_to_chunks (a @ b) = a @ zero_pad_to_chunks b"
  by (simp add: zero_pad_to_chunks_def CHUNK_SIZE_def)

lemma zero_pad_short:
  "0 < length c \<Longrightarrow> length c \<le> 32 \<Longrightarrow> zero_pad_to_chunks c = ljust c 32 0"
  by (cases "length c = 32") (simp_all add: zero_pad_to_chunks_def CHUNK_SIZE_def ljust_def)

lemma length_concat_uniform:
  "\<forall>x\<in>set xs. length x = s \<Longrightarrow> length (concat xs) = length xs * s"
  by (induction xs) simp_all

lemma partition_pad_Nil: "partition_pad k [] p = []"
  by (simp add: partition_pad.simps)

lemma partition_pad_Cons:
  "0 < k \<Longrightarrow> xs \<noteq> [] \<Longrightarrow>
   partition_pad k xs p = (take k xs @ replicate (k - length xs) p) # partition_pad k (drop k xs) p"
  by (subst partition_pad.simps) simp

lemma length_partition_pad:
  "0 < k \<Longrightarrow> length (partition_pad k xs p) = (length xs + k - 1) div k"
proof (induction "length xs" arbitrary: xs rule: less_induct)
  case less
  show ?case
  proof (cases "xs = []")
    case True
    then show ?thesis using less.prems by (simp add: partition_pad_Nil)
  next
    case False
    then have "length (drop k xs) < length xs"
      using less.prems by simp
    then have ih: "length (partition_pad k (drop k xs) p) = (length (drop k xs) + k - 1) div k"
      using less by blast
    have step: "length (partition_pad k xs p) = Suc (length (partition_pad k (drop k xs) p))"
      unfolding partition_pad_Cons [OF less.prems False, of p] by simp
    show ?thesis
    proof (cases "length xs \<le> k")
      case True
      define a where "a = length xs - 1"
      have lx: "length xs = Suc a" and ak: "a < k"
        using True False by (cases xs; simp add: a_def)+
      have "(Suc a + k - 1) div k = 1"
        using ak by simp
      then show ?thesis
        unfolding step using True by (simp add: partition_pad_Nil lx)
    next
      case gt: False
      define a where "a = length xs - k"
      have lx: "length xs = a + k"
        using gt by (simp add: a_def)
      have "a + k + k - 1 = (a + k - 1) + k"
        using less.prems by simp
      then have "(a + k + k - 1) div k = (a + k - 1) div k + 1"
        using less.prems by (simp only: div_add_self2)
      then show ?thesis
        unfolding step ih by (simp add: lx)
    qed
  qed
qed


lemma partition_pad_not_Nil: "0 < k \<Longrightarrow> xs \<noteq> [] \<Longrightarrow> partition_pad k xs p \<noteq> []"
  by (simp add: partition_pad_Cons)

lemma concat_pad_group: "concat (ys @ replicate j []) = concat ys"
  by (induction j) (simp_all add: replicate_append_same [symmetric] del: replicate_Suc)

lemma pack_groups_spec:
  assumes "0 < k" and "0 < s" and "k * s = 32"
  shows "\<forall>x\<in>set xs. length x = s \<Longrightarrow> xs \<noteq> [] \<Longrightarrow>
         butlast (map concat (partition_pad k xs [])) @
           [ljust (last (map concat (partition_pad k xs []))) 32 0] = pack_spec xs"
proof (induction "length xs" arbitrary: xs rule: less_induct)
  case less
  note uni = less.prems(1) and ne = less.prems(2)
  have step: "map concat (partition_pad k xs []) =
                concat (take k xs) # map concat (partition_pad k (drop k xs) [])"
    unfolding partition_pad_Cons [OF assms(1) ne] by (simp add: concat_pad_group)
  show ?case
  proof (cases "length xs \<le> k")
    case True
    then have cs: "map concat (partition_pad k xs []) = [concat xs]"
      unfolding step by (simp add: partition_pad_Nil)
    have "length (concat xs) = length xs * s"
      using uni by (rule length_concat_uniform)
    moreover have "0 < length xs * s"
      using ne assms(2) by simp
    moreover have "length xs * s \<le> k * s"
      using True by simp
    ultimately have "0 < length (concat xs)" and "length (concat xs) \<le> 32"
      using assms(3) by simp_all
    then have zp: "zero_pad_to_chunks (concat xs) = ljust (concat xs) 32 0"
      by (rule zero_pad_short)
    have "length (ljust (concat xs) 32 0) = 32"
      using \<open>length (concat xs) \<le> 32\<close> by (simp add: ljust_def)
    then have "slice_chunks (ljust (concat xs) 32 0) = [ljust (concat xs) 32 0]"
      by (rule slice_chunks_single)
    then show ?thesis
      unfolding cs pack_spec_def zp by simp
  next
    case False
    let ?rest = "drop k xs"
    let ?a = "concat (take k xs)"
    have rne: "?rest \<noteq> []"
      using False by simp
    have runi: "\<forall>x\<in>set ?rest. length x = s"
      using uni by (meson in_set_dropD)
    have rlen: "length ?rest < length xs"
      using assms(1) ne by simp
    have ih: "butlast (map concat (partition_pad k ?rest [])) @
                [ljust (last (map concat (partition_pad k ?rest []))) 32 0] = pack_spec ?rest"
      using less.hyps [OF rlen runi rne] .
    have csne: "map concat (partition_pad k ?rest []) \<noteq> []"
      using partition_pad_not_Nil [OF assms(1) rne] by simp
    have "\<forall>x\<in>set (take k xs). length x = s"
      using uni by (meson in_set_takeD)
    then have "length ?a = length (take k xs) * s"
      by (rule length_concat_uniform)
    then have la: "length ?a = 32"
      using False assms(3) by (simp add: min_def)
    have "concat xs = ?a @ concat ?rest"
      by (metis append_take_drop_id concat_append)
    then have "pack_spec xs = ?a # pack_spec ?rest"
      by (simp add: pack_spec_def zero_pad_append [OF la] slice_chunks_Cons [OF la])
    then show ?thesis
      unfolding step using csne ih by simp
  qed
qed

lemma pack_groups:
  assumes "items \<noteq> []" and "0 < k"
    and "get_items_per_chunk (int (length (items ! 0))) = Inr (int k)"
  shows "pack items =
           Inr (butlast (map concat (partition_pad k items [])) @
                [ljust (last (map concat (partition_pad k items []))) CHUNK_SIZE 0])"
proof -
  let ?cs = "map concat (partition_pad k items [])"
  let ?m = "(length items + k - 1) div k"
  have len: "length ?cs = ?m"
    using length_partition_pad [OF assms(2), of items "[]"] by simp
  have ne: "?cs \<noteq> []"
    using partition_pad_not_Nil [OF assms(2) assms(1)] by simp
  then have m1: "1 \<le> ?m"
    using len by (metis One_nat_def Suc_leI length_greater_0_conv)
  have "int (length items) + (int k - 1) = int (length items + k - 1)"
    using assms(2) by simp
  then have "(int (length items) + (int k - 1)) div int k = int ?m"
    by (simp only: zdiv_int)
  then have noc: "(int (length items) + (int k - 1)) div int k - 1 = int (?m - 1)"
    and ge: "\<not> (int (length items) + (int k - 1)) div int k < 1"
    using m1 by simp_all
  have tk: "take (?m - 1) ?cs = butlast ?cs"
    using len by (simp add: butlast_conv_take)
  have "drop (?m - 1) ?cs = [last ?cs]"
    using len ne m1 by (metis append_butlast_last_id append_eq_conv_conj length_butlast)
  then have fr: "first_toolz (drop (?m - 1) ?cs) = Inr (last ?cs, [])"
    by simp
  show ?thesis
    using assms(1)
    by (simp add: pack_def assms(3) Let_def noc ge take_toolz_def tk fr del: One_nat_def)
qed

lemma ceil_div_nat:
  assumes "0 < k"
  shows "\<lceil>real n / real k\<rceil> = int ((n + k - 1) div k)"
proof -
  define m where "m = (n + k - 1) div k"
  define r where "r = (n + k - 1) mod k"
  have e: "n + k - 1 = m * k + r"
    by (simp add: m_def r_def)
  have r: "r < k"
    using assms by (simp add: r_def)
  have up: "n \<le> m * k"
    using e r by linarith
  have lo: "m * k < n + k"
    using e assms by linarith
  have "real n \<le> real (m * k)"
    using up by (simp only: of_nat_le_iff)
  then have a: "real n / real k \<le> real m"
    using assms by (simp add: divide_le_eq)
  have "real (m * k) < real (n + k)"
    using lo by (simp only: of_nat_less_iff)
  then have "real m * real k - real k < real n"
    by simp
  then have "(real m - 1) * real k < real n"
    by (simp add: algebra_simps)
  then have b: "real m - 1 < real n / real k"
    using assms by (simp add: less_divide_eq)
  show ?thesis
    unfolding m_def [symmetric]
    by (rule ceiling_unique) (use a b in simp_all)
qed

text \<open>
  Claim C6. For every non-empty sequence of items that all have the same size \<open>s\<close>,
  with \<open>s > 0\<close> and \<open>CHUNK_SIZE mod s = 0\<close>, \<open>pack\<close> returns exactly
  \<open>\<lceil>length items / (CHUNK_SIZE / s)\<rceil>\<close> chunks, and they are the concatenation of all
  items, zero-padded on the right to a multiple of \<open>CHUNK_SIZE\<close> and sliced into
  consecutive 32-byte pieces; for the empty sequence \<open>pack\<close> returns the single chunk
  of 32 zero bytes.
\<close>

theorem pack_uniform_items:
  "(items \<noteq> [] \<and> (\<forall>x\<in>set items. length x = s) \<and> 0 < s \<and> CHUNK_SIZE mod s = 0 \<longrightarrow>
      pack items = Inr (pack_spec items) \<and>
      int (length (pack_spec items)) = \<lceil>real (length items) / real (CHUNK_SIZE div s)\<rceil>) \<and>
   pack [] = Inr [replicate 32 0]"
proof -
  have empty: "pack [] = Inr [replicate 32 0]"
    by (simp add: pack_def EMPTY_CHUNK_def)
  have main: "pack items = Inr (pack_spec items) \<and>
      int (length (pack_spec items)) = \<lceil>real (length items) / real (32 div s)\<rceil>"
    if ne: "items \<noteq> []" and uni: "\<forall>x\<in>set items. length x = s" and s: "0 < s"
      and dv: "32 mod s = 0"
  proof -
    define k where "k = 32 div s"
    have ks: "k * s = 32"
      using dv by (simp add: k_def mod_eq_0_iff_dvd)
    have k: "0 < k"
      using ks by (cases k) simp_all
    have "items ! 0 \<in> set items"
      using ne by simp
    then have l0: "length (items ! 0) = s"
      using uni by blast
    have sle: "s \<le> 32"
      using ks k by (metis dvd_imp_le dvd_triv_right zero_less_numeral)
    have "32 mod int s = int (32 mod s)" and "32 div int s = int (32 div s)"
      using zmod_int [of 32 s] zdiv_int [of 32 s] by simp_all
    then have gi: "get_items_per_chunk (int (length (items ! 0))) = Inr (int k)"
      using s dv sle by (simp add: get_items_per_chunk_def CHUNK_SIZE_def l0 k_def)
    let ?cs = "map concat (partition_pad k items [])"
    have p: "pack items = Inr (butlast ?cs @ [ljust (last ?cs) 32 0])"
      using pack_groups [OF ne k gi] by (simp add: CHUNK_SIZE_def)
    have sp: "butlast ?cs @ [ljust (last ?cs) 32 0] = pack_spec items"
      using pack_groups_spec [OF k s ks uni ne] .
    have "?cs \<noteq> []"
      using partition_pad_not_Nil [OF k ne] by simp
    then have "length (butlast ?cs @ [ljust (last ?cs) 32 0]) = length ?cs"
      by simp
    also have "\<dots> = (length items + k - 1) div k"
      using length_partition_pad [OF k, of items "[]"] by simp
    finally have "int (length (pack_spec items)) = \<lceil>real (length items) / real k\<rceil>"
      unfolding sp using ceil_div_nat [OF k, of "length items"] by simp
    then show ?thesis
      using p sp by (simp add: k_def)
  qed
  show ?thesis
    using main empty by (simp add: CHUNK_SIZE_def)
qed

theorem pack_uniform_items_witness:
  "[replicate 16 1, replicate 16 2, replicate 16 3] \<noteq> ([] :: bytes list) \<and>
   map length [replicate 16 1, replicate 16 2, replicate 16 (3::byte)] = [16, 16, 16] \<and>
   (0::nat) < 16 \<and> CHUNK_SIZE mod 16 = 0 \<and>
   pack [replicate 16 1, replicate 16 2, replicate 16 3] =
     Inr [replicate 16 1 @ replicate 16 2, replicate 16 3 @ replicate 16 0] \<and>
   length (pack_spec [replicate 16 1, replicate 16 2, replicate 16 3]) = 2"
proof -
  have sp: "pack_spec [replicate 16 1, replicate 16 2, replicate 16 3] =
              [replicate 16 1 @ replicate 16 2, replicate 16 3 @ replicate 16 0]"
    by code_simp
  show ?thesis
    using pack_uniform_items [of "[replicate 16 1, replicate 16 2, replicate 16 3]" 16]
    by (simp add: sp CHUNK_SIZE_def)
qed

section \<open>Zero-hash table\<close>

lemma table_shape_step:
  assumes "table_shape zs"
  shows "\<exists>n. bind_err (lookup zs (length zs - 1)) (\<lambda>a.
           bind_err (lookup zs (length zs - 1)) (\<lambda>b. py_add a b)) = Inr n
         \<and> (\<forall>hash. table_shape (zs @ [PInt (hash n)]))"
proof -
  have ne: "zs \<noteq> []" using assms by (simp add: table_shape_def)
  then have lk: "lookup zs (length zs - 1) = Inr (zs ! (length zs - 1))"
    by (simp add: lookup_def)
  have ext: "table_shape (zs @ [PInt k])" for k
    using assms by (auto simp: table_shape_def nth_append)
  show ?thesis
  proof (cases "length zs - 1 = 0")
    case True
    then have "zs ! (length zs - 1) = PBytes ZERO_BYTES32"
      using assms by (simp add: table_shape_def)
    then show ?thesis using lk ext by simp
  next
    case False
    then have "0 < length zs - 1 \<and> length zs - 1 < length zs"
      using ne by simp
    moreover have "\<forall>i. 0 < i \<and> i < length zs \<longrightarrow> (\<exists>n. zs ! i = PInt n)"
      using assms by (simp add: table_shape_def)
    ultimately obtain n where "zs ! (length zs - 1) = PInt n"
      by blast
    then show ?thesis using lk ext by simp
  qed
qed

lemma zerohashes_loop_shape:
  "table_shape zs \<Longrightarrow>
   \<exists>zs'. zerohashes_loop hash [length zs..<length zs + k] zs = Inr zs' \<and>
         length zs' = length zs + k \<and> table_shape zs' \<and> take (length zs) zs' = zs"
proof (induction k arbitrary: zs)
  case 0
  then show ?case by simp
next
  case (Suc k)
  obtain n where n: "bind_err (lookup zs (length zs - 1)) (\<lambda>a.
           bind_err (lookup zs (length zs - 1)) (\<lambda>b. py_add a b)) = Inr n"
    and sh: "table_shape (zs @ [PInt (hash n)])"
    using table_shape_step [OF Suc.prems] by blast
  let ?zs1 = "zs @ [PInt (hash n)]"
  have up: "[length zs..<length zs + Suc k] = length zs # [length ?zs1..<length ?zs1 + k]"
    by (simp add: upt_rec)
  obtain zs' where r: "zerohashes_loop hash [length ?zs1..<length ?zs1 + k] ?zs1 = Inr zs'"
    and l: "length zs' = length ?zs1 + k" and s: "table_shape zs'"
    and t: "take (length ?zs1) zs' = ?zs1"
    using Suc.IH [OF sh] by blast
  have "zerohashes_loop hash [length zs..<length zs + Suc k] zs = Inr zs'"
    unfolding up using n r
    by (cases "lookup zs (length zs - 1)") (auto split: sum.splits)
  moreover have "take (length zs) zs' = zs"
  proof -
    have "take (length zs) zs' = take (length zs) (take (length ?zs1) zs')"
      by (simp add: min_def)
    then show ?thesis
      unfolding t by simp
  qed
  ultimately show ?case using l s by simp
qed

lemma zerohashes_shape:
  "\<exists>zs. zerohashes hash = Inr zs \<and> length zs = 100 \<and> table_shape zs \<and>
        zs ! 1 = PInt (hash (PBytes (ZERO_BYTES32 @ ZERO_BYTES32)))"
proof -
  let ?zs1 = "[PBytes ZERO_BYTES32, PInt (hash (PBytes (ZERO_BYTES32 @ ZERO_BYTES32)))]"
  have sh: "table_shape ?zs1"
    by (simp add: table_shape_def)
  have u: "[1..<100] = 1 # [Suc 1..<100]"
    by (rule upt_conv_Cons) simp
  have step: "zerohashes_loop hash (1 # ls) [PBytes ZERO_BYTES32] = zerohashes_loop hash ls ?zs1"
    for ls
    by (simp add: lookup_def)
  have e: "[Suc 1..<100] = [length ?zs1..<length ?zs1 + 98]"
    by simp
  have first: "zerohashes hash = zerohashes_loop hash [length ?zs1..<length ?zs1 + 98] ?zs1"
    unfolding zerohashes_def u step e ..
  obtain zs where r: "zerohashes_loop hash [length ?zs1..<length ?zs1 + 98] ?zs1 = Inr zs"
    and l: "length zs = length ?zs1 + 98" and s: "table_shape zs"
    and t: "take (length ?zs1) zs = ?zs1"
    using zerohashes_loop_shape [OF sh] by blast
  have "zs ! 1 = take (length ?zs1) zs ! 1"
    by simp
  then have "zs ! 1 = PInt (hash (PBytes (ZERO_BYTES32 @ ZERO_BYTES32)))"
    unfolding t by simp
  then show ?thesis
    using first r l s by simp
qed

text \<open>
  Claim C1 on the code. The table has 100 entries and entry 0 is 32 zero bytes, but the
  loop calls the builtin \<open>hash\<close>, not \<open>hash_eth2\<close>: entry 1 is the integer
  \<open>hash\<close> of 64 zero bytes, every entry of depth 1 to 99 is an integer, and none of
  them is \<open>hash_eth2\<close> of the entry below concatenated with itself.
\<close>

theorem zerohashes_entries_are_builtin_hashes:
  "\<exists>zs. zerohashes hash = Inr zs \<and> length zs = 100 \<and>
        zs ! 0 = PBytes (replicate 32 0) \<and>
        zs ! 1 = PInt (hash (PBytes (replicate 64 0))) \<and>
        (\<forall>d. 1 \<le> d \<and> d < 100 \<longrightarrow>
           (\<exists>n. zs ! d = PInt n) \<and>
           bind_err (py_add (zs ! (d - 1)) (zs ! (d - 1))) (hash_eth2 H) \<noteq> Inr (zs ! d))"
proof -
  obtain zs where z: "zerohashes hash = Inr zs" and l: "length zs = 100"
    and s: "table_shape zs"
    and o: "zs ! 1 = PInt (hash (PBytes (ZERO_BYTES32 @ ZERO_BYTES32)))"
    using zerohashes_shape [of hash] by blast
  have z0: "zs ! 0 = PBytes (replicate 32 0)"
    using s by (simp add: table_shape_def ZERO_BYTES32_def)
  have ints: "\<exists>n. zs ! d = PInt n" if "1 \<le> d" "d < 100" for d
    using s l that by (simp add: table_shape_def)
  have neq: "bind_err (py_add (zs ! (d - 1)) (zs ! (d - 1))) (hash_eth2 H) \<noteq> Inr (zs ! d)"
    if d: "1 \<le> d" "d < 100" for d
  proof -
    obtain n where n: "zs ! d = PInt n"
      using ints [OF d] by blast
    show ?thesis
    proof (cases "d = 1")
      case True
      then show ?thesis using z0 n by simp
    next
      case False
      then have "1 \<le> d - 1" and "d - 1 < 100"
        using d by simp_all
      then obtain m where "zs ! (d - 1) = PInt m"
        using ints [of "d - 1"] by blast
      then show ?thesis using n by simp
    qed
  qed
  have "replicate 32 0 @ replicate 32 0 = (replicate 64 0 :: bytes)"
    by (simp flip: replicate_add)
  then have "zs ! 1 = PInt (hash (PBytes (replicate 64 0)))"
    using o by (simp add: ZERO_BYTES32_def)
  then show ?thesis
    using z l z0 ints neq by blast
qed

theorem zerohashes_entries_are_builtin_hashes_witness:
  "(1::nat) \<le> 1 \<and> (1::nat) < 100 \<and>
   bind_err (zerohashes (\<lambda>v. 7)) (\<lambda>zs. lookup zs 1) = Inr (PInt 7) \<and>
   bind_err (zerohashes (\<lambda>v. 7)) (\<lambda>zs. lookup zs 1)
     \<noteq> Inr (PBytes (rev (replicate 32 0 @ replicate 32 0)))"
proof -
  obtain zs where "zerohashes (\<lambda>v. 7) = Inr zs" and "length zs = 100"
    and "\<forall>d. 1 \<le> d \<and> d < 100 \<longrightarrow> (\<exists>n. zs ! d = PInt n)"
    and "zs ! 1 = PInt 7"
    using zerohashes_entries_are_builtin_hashes [of "\<lambda>v. 7" rev] by auto
  then show ?thesis
    by (simp add: lookup_def)
qed

section \<open>Merkleizer\<close>

lemma bit_length_0: "bit_length 0 = 0"
  by (simp add: bit_length_def bit_length_nat.simps)

lemma bit_length_values:
  "bit_length 1 = 1" "bit_length 2 = 2" "bit_length 3 = 2" "bit_length 4 = 3"
  by (simp_all add: bit_length_def bit_length_nat.simps)

lemma body_empty:
  assumes "zs \<noteq> []"
  shows "merkleize_body zs H [] 1 = Inr (zs ! 0)"
  using assms
  by (simp add: merkleize_body_def bit_length_0 merge_def merge_loop.simps lookup_def store_def)

lemma body_single:
  shows "merkleize_body zs H [c] 1 = Inr (PBytes c)"
  by (simp add: merkleize_body_def bit_length_0 merge_def merge_loop.simps lookup_def store_def)

lemma body_single_pad3:
  assumes "1 < length zs" "zs ! 0 = PBytes z" "zs ! 1 = PInt n"
  shows "merkleize_body zs H [c] 3 = Inl TypeError"
proof -
  have cd: "bit_length (max (int (length [c]) - 1) 0) = 0"
    by (simp add: bit_length_0)
  have md: "bit_length (3 - 1) = 2"
    by (simp add: bit_length_values)
  have leaf: "merge H zs (Suc 0) 0 [PNone, PNone, PNone] (PBytes c) 0 = Inr [PBytes c, PNone, PNone]"
    by (simp add: merge_def merge_loop.simps store_def)
  have idx: "[0..<2] = [0, Suc 0]"
    by (simp add: upt_rec)
  have rep: "replicate (2 + 1) PNone = [PNone, PNone, PNone]"
    by (simp add: numeral_2_eq_2)
  have mx: "max 0 2 = (2::nat)"
    by simp
  show ?thesis
    unfolding merkleize_body_def Let_def cd md mx idx rep
    using assms by (auto simp: lookup_def store_def leaf)
qed

lemma body_five:
  assumes "1 < length zs" "zs ! 0 = PBytes z" "zs ! 1 = PInt n"
  shows "merkleize_body zs H [c0, c1, c2, c3, c4] 1 = Inl TypeError"
proof -
  let ?N = "PNone"
  let ?h01 = "PBytes (H (c0 @ c1))"
  let ?h03 = "PBytes (H (H (c0 @ c1) @ H (c2 @ c3)))"
  have len: "length [c0, c1, c2, c3, c4] = 5"
    by simp
  have cd: "bit_length (max (int 5 - 1) 0) = 3"
    by (simp add: bit_length_values)
  have md: "max 3 (bit_length (1 - 1)) = 3"
    by (simp add: bit_length_0)
  have idx: "[0..<5] = [0, Suc 0, 2, 3, 4]"
    by (simp add: upt_rec)
  have m0: "merge H zs 5 3 [?N, ?N, ?N, ?N] (PBytes c0) 0 = Inr [PBytes c0, ?N, ?N, ?N]"
    by (simp add: merge_def merge_loop.simps store_def)
  have m1: "merge H zs 5 3 [PBytes c0, ?N, ?N, ?N] (PBytes c1) (Suc 0)
              = Inr [PBytes c0, ?h01, ?N, ?N]"
    by (simp add: merge_def merge_loop.simps store_def lookup_def)
  have m2: "merge H zs 5 3 [PBytes c0, ?h01, ?N, ?N] (PBytes c2) 2
              = Inr [PBytes c2, ?h01, ?N, ?N]"
    by (simp add: merge_def merge_loop.simps store_def lookup_def)
  have m3: "merge H zs 5 3 [PBytes c2, ?h01, ?N, ?N] (PBytes c3) 3
              = Inr [PBytes c2, ?h01, ?h03, ?N]"
    by (simp add: merge_def merge_loop.simps store_def lookup_def)
  have m4: "merge H zs 5 3 [PBytes c2, ?h01, ?h03, ?N] (PBytes c4) 4
              = Inr [PBytes c4, ?h01, ?h03, ?N]"
    by (simp add: merge_def merge_loop.simps store_def lookup_def)
  have leaves: "merge_leaves H zs [c0, c1, c2, c3, c4] 5 3 [0, Suc 0, 2, 3, 4] [?N, ?N, ?N, ?N]
              = Inr [PBytes c4, ?h01, ?h03, ?N]"
    by (simp add: lookup_def m0 m1 m2 m3 m4)
  have fin: "merge H zs 5 3 [PBytes c4, ?h01, ?h03, ?N] (PBytes z) 5 = Inl TypeError"
    using assms by (auto simp: merge_def merge_loop.simps lookup_def)
  have rep: "replicate (3 + 1) ?N = [?N, ?N, ?N, ?N]"
    by (simp add: numeral_3_eq_3)
  show ?thesis
    unfolding merkleize_body_def Let_def len cd md idx rep leaves
    using assms by (auto simp: lookup_def fin)
qed

lemma body_single_pad2:
  assumes "zs \<noteq> []" "zs ! 0 = PBytes z"
  shows "merkleize_body zs H [c] 2 = Inr (PBytes (H (c @ z)))"
proof -
  have cd: "bit_length (max (int (length [c]) - 1) 0) = 0"
    by (simp add: bit_length_0)
  have md: "bit_length (2 - 1) = 1"
    by (simp add: bit_length_values)
  have leaf: "merge H zs (Suc 0) 0 [PNone, PNone] (PBytes c) 0 = Inr [PBytes c, PNone]"
    by (simp add: merge_def merge_loop.simps store_def)
  have idx: "[0..<1] = [0]"
    by (simp add: upt_rec)
  have rep: "replicate (1 + 1) PNone = [PNone, PNone]"
    by (simp add: numeral_2_eq_2)
  have mx: "max 0 1 = (1::nat)"
    by simp
  show ?thesis
    unfolding merkleize_body_def Let_def cd md mx idx rep
    using assms by (auto simp: lookup_def store_def leaf)
qed

lemma body_three:
  assumes "zs \<noteq> []" "zs ! 0 = PBytes z"
  shows "merkleize_body zs H [c0, c1, c2] 1 = Inr (PBytes (H (H (c0 @ c1) @ H (c2 @ z))))"
proof -
  let ?N = "PNone"
  let ?h01 = "PBytes (H (c0 @ c1))"
  have len: "length [c0, c1, c2] = 3"
    by simp
  have cd: "bit_length (max (int 3 - 1) 0) = 2"
    by (simp add: bit_length_values)
  have md: "max 2 (bit_length (1 - 1)) = 2"
    by (simp add: bit_length_0)
  have idx: "[0..<3] = [0, Suc 0, 2]"
    by (simp add: upt_rec)
  have m0: "merge H zs 3 2 [?N, ?N, ?N] (PBytes c0) 0 = Inr [PBytes c0, ?N, ?N]"
    by (simp add: merge_def merge_loop.simps store_def)
  have m1: "merge H zs 3 2 [PBytes c0, ?N, ?N] (PBytes c1) (Suc 0) = Inr [PBytes c0, ?h01, ?N]"
    by (simp add: merge_def merge_loop.simps store_def lookup_def)
  have m2: "merge H zs 3 2 [PBytes c0, ?h01, ?N] (PBytes c2) 2 = Inr [PBytes c2, ?h01, ?N]"
    by (simp add: merge_def merge_loop.simps store_def lookup_def)
  have leaves: "merge_leaves H zs [c0, c1, c2] 3 2 [0, Suc 0, 2] [?N, ?N, ?N]
              = Inr [PBytes c2, ?h01, ?N]"
    by (simp add: lookup_def m0 m1 m2)
  have fin: "merge H zs 3 2 [PBytes c2, ?h01, ?N] (PBytes z) 3
              = Inr [PBytes c2, ?h01, PBytes (H (H (c0 @ c1) @ H (c2 @ z)))]"
    by (simp add: merge_def merge_loop.simps lookup_def store_def)
  have rep: "replicate (2 + 1) ?N = [?N, ?N, ?N]"
    by (simp add: numeral_2_eq_2)
  show ?thesis
    unfolding merkleize_body_def Let_def len cd md idx rep leaves
    using assms by (auto simp: lookup_def fin)
qed

lemma body_four:
  "merkleize_body zs H [c0, c1, c2, c3] 1 = Inr (PBytes (H (H (c0 @ c1) @ H (c2 @ c3))))"
proof -
  let ?N = "PNone"
  let ?h01 = "PBytes (H (c0 @ c1))"
  let ?h03 = "PBytes (H (H (c0 @ c1) @ H (c2 @ c3)))"
  have len: "length [c0, c1, c2, c3] = 4"
    by simp
  have cd: "bit_length (max (int 4 - 1) 0) = 2"
    by (simp add: bit_length_values)
  have md: "max 2 (bit_length (1 - 1)) = 2"
    by (simp add: bit_length_0)
  have idx: "[0..<4] = [0, Suc 0, 2, 3]"
    by (simp add: upt_rec)
  have m0: "merge H zs 4 2 [?N, ?N, ?N] (PBytes c0) 0 = Inr [PBytes c0, ?N, ?N]"
    by (simp add: merge_def merge_loop.simps store_def)
  have m1: "merge H zs 4 2 [PBytes c0, ?N, ?N] (PBytes c1) (Suc 0) = Inr [PBytes c0, ?h01, ?N]"
    by (simp add: merge_def merge_loop.simps store_def lookup_def)
  have m2: "merge H zs 4 2 [PBytes c0, ?h01, ?N] (PBytes c2) 2 = Inr [PBytes c2, ?h01, ?N]"
    by (simp add: merge_def merge_loop.simps store_def lookup_def)
  have m3: "merge H zs 4 2 [PBytes c2, ?h01, ?N] (PBytes c3) 3 = Inr [PBytes c2, ?h01, ?h03]"
    by (simp add: merge_def merge_loop.simps store_def lookup_def)
  have leaves: "merge_leaves H zs [c0, c1, c2, c3] 4 2 [0, Suc 0, 2, 3] [?N, ?N, ?N]
              = Inr [PBytes c2, ?h01, ?h03]"
    by (simp add: lookup_def m0 m1 m2 m3)
  have rep: "replicate (2 + 1) ?N = [?N, ?N, ?N]"
    by (simp add: numeral_2_eq_2)
  show ?thesis
    unfolding merkleize_body_def Let_def len cd md idx rep leaves
    by (simp add: lookup_def)
qed

lemma merkleize_on_table:
  "\<exists>zs n. (\<forall>H chunks pad_for.
             merkleize hash H chunks pad_for = merkleize_body zs H chunks pad_for) \<and>
          1 < length zs \<and> zs ! 0 = PBytes ZERO_BYTES32 \<and> zs ! 1 = PInt n"
proof -
  obtain zs where z: "zerohashes hash = Inr zs" and l: "length zs = 100"
    and s: "table_shape zs"
    and o: "zs ! 1 = PInt (hash (PBytes (ZERO_BYTES32 @ ZERO_BYTES32)))"
    using zerohashes_shape [of hash] by blast
  have "merkleize hash H chunks pad_for = merkleize_body zs H chunks pad_for"
    for H chunks pad_for
    by (simp add: merkleize_def z)
  moreover have "zs ! 0 = PBytes ZERO_BYTES32"
    using s by (simp add: table_shape_def)
  ultimately show ?thesis
    using l o by auto
qed

text \<open>
  Claim C3. Merkleizing the empty chunk sequence with the default pad target gives the
  depth-0 zero hash, which is 32 zero bytes.
\<close>

theorem merkleize_empty:
  "merkleize hash H [] 1 = Inr (PBytes (replicate 32 0)) \<and>
   merkleize hash H [] 1 = bind_err (zerohashes hash) (\<lambda>zs. lookup zs 0) \<and>
   ZERO_BYTES32 = replicate 32 0"
proof -
  obtain zs where z: "zerohashes hash = Inr zs" and l: "length zs = 100"
    and s: "table_shape zs"
    using zerohashes_shape [of hash] by blast
  have ne: "zs \<noteq> []"
    using l by auto
  have "merkleize hash H [] 1 = Inr (zs ! 0)"
    using body_empty [OF ne] by (simp add: merkleize_def z)
  moreover have "zs ! 0 = PBytes (replicate 32 0)"
    using s by (simp add: table_shape_def ZERO_BYTES32_def)
  ultimately show ?thesis
    using ne by (simp add: z lookup_def ZERO_BYTES32_def)
qed

text \<open>
  Claim C4. For every chunk \<open>c\<close>, \<open>merkleize [c]\<close> with pad target 1 returns \<open>c\<close> itself,
  whatever the hash function is; packing four 8-byte items gives exactly one chunk, their
  concatenation, and merkleizing it with pad target 1 returns that chunk unchanged.
\<close>

theorem merkleize_single_chunk:
  "merkleize hash H [c] 1 = Inr (PBytes c) \<and>
   (length i0 = 8 \<and> length i1 = 8 \<and> length i2 = 8 \<and> length i3 = 8 \<longrightarrow>
      pack [i0, i1, i2, i3] = Inr [i0 @ i1 @ i2 @ i3] \<and>
      length (i0 @ i1 @ i2 @ i3) = CHUNK_SIZE \<and>
      merkleize hash H [i0 @ i1 @ i2 @ i3] 1 = Inr (PBytes (i0 @ i1 @ i2 @ i3)))"
proof -
  obtain zs where z: "zerohashes hash = Inr zs"
    using zerohashes_shape [of hash] by blast
  have single: "merkleize hash H [x] 1 = Inr (PBytes x)" for x
    using body_single [of zs H x] by (simp add: merkleize_def z)
  have packed: "pack [i0, i1, i2, i3] = Inr [i0 @ i1 @ i2 @ i3]"
    if "length i0 = 8" "length i1 = 8" "length i2 = 8" "length i3 = 8"
  proof -
    have g: "get_items_per_chunk (int (length ([i0, i1, i2, i3] ! 0))) = Inr (int 4)"
      using that by (simp add: get_items_per_chunk_def CHUNK_SIZE_def)
    have p: "partition_pad 4 [i0, i1, i2, i3] [] = [[i0, i1, i2, i3]]"
      by (simp add: partition_pad_Cons partition_pad_Nil)
    show ?thesis
      using pack_groups [OF _ _ g] that by (simp add: p ljust_def CHUNK_SIZE_def)
  qed
  show ?thesis
    using single packed by (simp add: CHUNK_SIZE_def)
qed

theorem merkleize_single_chunk_witness:
  "length (replicate 8 (1::byte)) = 8 \<and> length (replicate 8 (2::byte)) = 8 \<and>
   length (replicate 8 (3::byte)) = 8 \<and> length (replicate 8 (4::byte)) = 8 \<and>
   pack [replicate 8 1, replicate 8 2, replicate 8 3, replicate 8 4] =
     Inr [replicate 8 1 @ replicate 8 2 @ replicate 8 3 @ replicate 8 4] \<and>
   merkleize (\<lambda>v. 7) rev [replicate 8 1 @ replicate 8 2 @ replicate 8 3 @ replicate 8 4] 1 =
     Inr (PBytes (replicate 8 1 @ replicate 8 2 @ replicate 8 3 @ replicate 8 4))"
  using merkleize_single_chunk [of "\<lambda>v. 7" rev "[]" "replicate 8 1" "replicate 8 2"
      "replicate 8 3" "replicate 8 4"]
  by simp

text \<open>
  Claim C2 on the code. \<open>merkleize\<close> returns a digest for three chunks (the rightmost
  subtree is completed with the depth-0 zero hash) and for four chunks (no padding), but
  with five chunks and the default pad target, completing the rightmost subtree combines
  a node with the table's entry 1, which is an integer: \<open>merkleize\<close> raises \<open>TypeError\<close>
  and returns no digest.
\<close>

theorem merkleize_five_chunks_raises:
  "merkleize hash H [c0, c1, c2] 1 = Inr (PBytes (H (H (c0 @ c1) @ H (c2 @ replicate 32 0)))) \<and>
   merkleize hash H [c0, c1, c2, c3] 1 = Inr (PBytes (H (H (c0 @ c1) @ H (c2 @ c3)))) \<and>
   merkleize hash H [c0, c1, c2, c3, c4] 1 = Inl TypeError"
proof -
  obtain zs n
    where m: "\<And>chunks. merkleize hash H chunks 1 = merkleize_body zs H chunks 1"
      and l: "1 < length zs" and z: "zs ! 0 = PBytes ZERO_BYTES32" and o: "zs ! 1 = PInt n"
    using merkleize_on_table [of hash] by blast
  have ne: "zs \<noteq> []"
    using l by auto
  show ?thesis
    unfolding m
    using body_three [OF ne z, of H c0 c1 c2] body_four [of zs H c0 c1 c2 c3]
      body_five [OF l z o, of H c0 c1 c2 c3 c4]
    by (simp add: ZERO_BYTES32_def)
qed

text \<open>
  Claim C5 on the code. One chunk with pad target 2 grows by one level with the depth-0
  zero hash, as the claim says; with pad target 3 the second level needs the table's
  entry 1, which is an integer, and \<open>merkleize\<close> raises \<open>TypeError\<close> instead of returning
  the root grown by two levels.
\<close>

theorem merkleize_pad_three_raises:
  "merkleize hash H [c] 1 = Inr (PBytes c) \<and>
   merkleize hash H [c] 2 = Inr (PBytes (H (c @ replicate 32 0))) \<and>
   merkleize hash H [c] 3 = Inl TypeError"
proof -
  obtain zs n
    where m: "\<And>pad_for. merkleize hash H [c] pad_for = merkleize_body zs H [c] pad_for"
      and l: "1 < length zs" and z: "zs ! 0 = PBytes ZERO_BYTES32" and o: "zs ! 1 = PInt n"
    using merkleize_on_table [of hash] by blast
  have ne: "zs \<noteq> []"
    using l by auto
  show ?thesis
    unfolding m
    using body_single [of zs H c] body_single_pad2 [OF ne z, of H c]
      body_single_pad3 [OF l z o, of H c]
    by (simp add: ZERO_BYTES32_def)
qed

end
